theory Spec2Isabelle
  imports Complex_Main "HOL-Library.AList"
begin

section \<open>TTLCache (packages/web/src/lib/cache.ts)\<close>

text \<open>
  Timestamps are the integers that \<^verbatim>\<open>Date.now()\<close> returns (milliseconds); the clock
  is passed to every operation as the argument \<open>now\<close>. The backing \<^verbatim>\<open>Map\<close> is an
  association list in insertion order: \<^verbatim>\<open>Map.set\<close> overwrites in place or appends,
  \<^verbatim>\<open>Map.delete\<close> removes the key, \<^verbatim>\<open>Map.size\<close> counts the stored keys. Every
  operation returns the cache it leaves behind.
\<close>

record 'a CacheEntry =
  entry_value :: 'a
  cachedAt :: int
  expiresAt :: int

record 'a CachedValue =
  cv_value :: 'a
  cv_cachedAt :: int
  ageMs :: int
  cv_ttlMs :: int
  stale :: bool

record 'a TTLCache =
  cache :: "(string \<times> 'a CacheEntry) list"
  ttlMs :: int
  cleanupInterval :: bool

definition DEFAULT_TTL_MS :: int where
  "DEFAULT_TTL_MS = 60000"

definition new_TTLCache :: "int \<Rightarrow> 'a TTLCache" where
  "new_TTLCache ttl = \<lparr>cache = [], ttlMs = ttl, cleanupInterval = True\<rparr>"

definition getWithMetadata ::
  "'a TTLCache \<Rightarrow> string \<Rightarrow> int \<Rightarrow> 'a CachedValue option \<times> 'a TTLCache" where
  "getWithMetadata c key now =
     (case map_of (cache c) key of
        None \<Rightarrow> (None, c)
      | Some entry \<Rightarrow>
          if now > expiresAt entry
          then (None, c\<lparr>cache := AList.delete key (cache c)\<rparr>)
          else
            (let age = now - cachedAt entry;
                 st = ((of_int age :: rat) > of_int (ttlMs c) * 0.75)
             in (Some \<lparr>cv_value = entry_value entry, cv_cachedAt = cachedAt entry,
                        ageMs = age, cv_ttlMs = ttlMs c, stale = st\<rparr>, c)))"

definition get_value :: "'a TTLCache \<Rightarrow> string \<Rightarrow> int \<Rightarrow> 'a option \<times> 'a TTLCache" where
  "get_value c key now =
     (case getWithMetadata c key now of
        (None, c') \<Rightarrow> (None, c')
      | (Some cached, c') \<Rightarrow> (Some (cv_value cached), c'))"

definition set_value :: "'a TTLCache \<Rightarrow> string \<Rightarrow> 'a \<Rightarrow> int \<Rightarrow> 'a TTLCache" where
  "set_value c key v now =
     c\<lparr>cache := AList.update key
                   \<lparr>entry_value = v, cachedAt = now, expiresAt = now + ttlMs c\<rparr> (cache c)\<rparr>"

definition evictExpired :: "'a TTLCache \<Rightarrow> int \<Rightarrow> 'a TTLCache" where
  "evictExpired c now =
     c\<lparr>cache := fold (\<lambda>(key, entry) m. if now > expiresAt entry then AList.delete key m else m)
                     (cache c) (cache c)\<rparr>"

definition clear :: "'a TTLCache \<Rightarrow> 'a TTLCache" where
  "clear c = c\<lparr>cache := [], cleanupInterval := False\<rparr>"

definition size_cache :: "'a TTLCache \<Rightarrow> nat" where
  "size_cache c = length (cache c)"

text \<open>The number of keys for which \<open>get\<close> answers with a value at time \<open>now\<close>.\<close>

definition live_keys :: "'a TTLCache \<Rightarrow> int \<Rightarrow> string list" where
  "live_keys c now = filter (\<lambda>key. fst (get_value c key now) \<noteq> None) (map fst (cache c))"

text \<open>Every entry is written by \<open>set\<close>, which fixes its expiry at cached-at plus TTL.\<close>

definition entries_ok :: "'a TTLCache \<Rightarrow> bool" where
  "entries_ok c = list_all (\<lambda>(key, entry). expiresAt entry = cachedAt entry + ttlMs c) (cache c)"

section \<open>PortManager (docs/REFACTORING_PLAN.md, service 2)\<close>

text \<open>
  \<^verbatim>\<open>isPortAvailable\<close> is imported from \<^verbatim>\<open>../lib/port.js\<close>: the answer of the operating
  system to the probe is the parameter \<open>avail\<close> of a call. Ports are JavaScript numbers,
  here integers. A call returns its outcome together with the instance it leaves behind,
  so that what a failed call did to \<^verbatim>\<open>allocatedPorts\<close> is visible.
\<close>

record PortManager =
  allocatedPorts :: "int set"

datatype port_error = CouldNotFindPort int nat
  \<comment> \<open>\<^verbatim>\<open>Could not find available port near ${preferred} after ${maxAttempts} attempts\<close>\<close>

function find_loop ::
  "(int \<Rightarrow> bool) \<Rightarrow> PortManager \<Rightarrow> int \<Rightarrow> nat \<Rightarrow> nat \<Rightarrow> (port_error + int) \<times> PortManager" where
  "find_loop avail pm preferred maxAttempts offset =
     (if offset < maxAttempts then
        (let port = preferred + int offset in
         if port \<in> allocatedPorts pm then find_loop avail pm preferred maxAttempts (Suc offset)
         else if avail port then (Inr port, pm\<lparr>allocatedPorts := insert port (allocatedPorts pm)\<rparr>)
         else find_loop avail pm preferred maxAttempts (Suc offset))
      else (Inl (CouldNotFindPort preferred maxAttempts), pm))"
  by pat_completeness auto
termination
  by (relation "measure (\<lambda>(avail, pm, preferred, maxAttempts, offset). maxAttempts - offset)") auto

definition findNextAvailable ::
  "(int \<Rightarrow> bool) \<Rightarrow> PortManager \<Rightarrow> int \<Rightarrow> (port_error + int) \<times> PortManager" where
  "findNextAvailable avail pm preferred = find_loop avail pm preferred 10 0"

definition release :: "PortManager \<Rightarrow> int \<Rightarrow> PortManager" where
  "release pm port = pm\<lparr>allocatedPorts := allocatedPorts pm - {port}\<rparr>"

definition releaseAll :: "PortManager \<Rightarrow> PortManager" where
  "releaseAll pm = pm\<lparr>allocatedPorts := {}\<rparr>"

record ServicePorts =
  dashboard :: int
  terminalWs :: int
  directTerminalWs :: int

definition allocateServicePorts ::
  "(int \<Rightarrow> bool) \<Rightarrow> PortManager \<Rightarrow> int \<Rightarrow> (port_error + ServicePorts) \<times> PortManager" where
  "allocateServicePorts avail pm preferredDashboardPort =
     (case findNextAvailable avail pm preferredDashboardPort of
        (Inl e, pm1) \<Rightarrow> (Inl e, pm1)
      | (Inr d, pm1) \<Rightarrow>
          (case findNextAvailable avail pm1 3001 of
             (Inl e, pm2) \<Rightarrow> (Inl e, pm2)
           | (Inr t, pm2) \<Rightarrow>
               (case findNextAvailable avail pm2 3003 of
                  (Inl e, pm3) \<Rightarrow> (Inl e, pm3)
                | (Inr dt, pm3) \<Rightarrow>
                    (Inr \<lparr>dashboard = d, terminalWs = t, directTerminalWs = dt\<rparr>, pm3))))"

text \<open>
  A history of calls on one instance, one after the other; every allocation comes with
  the answers the operating system gives during that call. \<open>pm_run\<close> collects what the
  allocations returned.
\<close>

datatype pm_op = Allocate "int \<Rightarrow> bool" int | Release int | ReleaseAll

fun releases :: "int \<Rightarrow> pm_op \<Rightarrow> bool" where
  "releases port (Allocate avail preferred) = False"
| "releases port (Release p) = (p = port)"
| "releases port ReleaseAll = True"

fun pm_run :: "PortManager \<Rightarrow> pm_op list \<Rightarrow> (port_error + int) list \<times> PortManager" where
  "pm_run pm [] = ([], pm)"
| "pm_run pm (Allocate avail preferred # ops) =
     (case findNextAvailable avail pm preferred of
        (r, pm') \<Rightarrow> (case pm_run pm' ops of (rs, pm'') \<Rightarrow> (r # rs, pm'')))"
| "pm_run pm (Release port # ops) = pm_run (release pm port) ops"
| "pm_run pm (ReleaseAll # ops) = pm_run (releaseAll pm) ops"

section \<open>ProcessManager (docs/REFACTORING_PLAN.md, service 5)\<close>

text \<open>
  Time is counted in milliseconds from the call of \<^verbatim>\<open>kill\<close>. The managed process is the
  parameter \<open>alive\<close>: whether the process exists at a time. \<^verbatim>\<open>process.kill\<close> throws when
  it does not. Console output is left out.

  \<^verbatim>\<open>waitForExit\<close> sets a timer and an interval. The interval polls every 100 ms and is
  cleared by the poll that finds the process gone, which also clears the timer and
  resolves. The timer rejects and clears nothing: after it has fired the interval goes on
  polling. The timer is set before the interval, so a poll that falls due together with
  the timer comes after it. The trace of a call lists every \<^verbatim>\<open>process.kill\<close> with its time,
  in order: those made until the promise of \<^verbatim>\<open>kill\<close> settles, and then those of an
  interval that is still running, up to the time \<open>horizon\<close> until which the host is watched.
\<close>

datatype signal = SIGTERM | SIGKILL | SIGINT | SIGHUP | SIGZERO

datatype command = Lsof int | KillPids "string list"
  \<comment> \<open>\<^verbatim>\<open>exec("lsof", ["-ti", `:${port}`])\<close> and \<^verbatim>\<open>exec("kill", uniquePids)\<close>\<close>

datatype effect = ProcessKill int signal | Exec command | ConsoleLog string

datatype proc_error = NoSuchProcess | DidNotExit int nat

definition process_kill :: "(nat \<Rightarrow> bool) \<Rightarrow> nat \<Rightarrow> proc_error + unit" where
  "process_kill alive t = (if alive t then Inr () else Inl NoSuchProcess)"

text \<open>The interval once the timer has fired: only a poll that finds the process gone ends it.\<close>

function interval_polls ::
  "(nat \<Rightarrow> bool) \<Rightarrow> int \<Rightarrow> nat \<Rightarrow> nat \<Rightarrow> (nat \<times> effect) list" where
  "interval_polls alive pid t horizon =
     (if horizon < t then []
      else
        (case process_kill alive t of
           Inl e \<Rightarrow> [(t, ProcessKill pid SIGZERO)]
         | Inr u \<Rightarrow> (t, ProcessKill pid SIGZERO) # interval_polls alive pid (t + 100) horizon))"
  by pat_completeness auto
termination
  by (relation "measure (\<lambda>(alive, pid, t, horizon). Suc horizon - t)") auto

text \<open>
  The interval while the timer is pending, from the poll due at \<open>t\<close>: the polls made, how
  the promise settles, and the time at which the interval is due next when it has not
  been cleared.
\<close>

function waitForExit_poll ::
  "(nat \<Rightarrow> bool) \<Rightarrow> int \<Rightarrow> nat \<Rightarrow> nat \<Rightarrow>
   (nat \<times> effect) list \<times> (proc_error + unit) \<times> nat option" where
  "waitForExit_poll alive pid timeout t =
     (if timeout \<le> t then ([], Inl (DidNotExit pid timeout), Some t)
      else
        (case process_kill alive t of
           Inl e \<Rightarrow> ([(t, ProcessKill pid SIGZERO)], Inr (), None)
         | Inr u \<Rightarrow>
             (case waitForExit_poll alive pid timeout (t + 100) of
                (polls, r, interval) \<Rightarrow> ((t, ProcessKill pid SIGZERO) # polls, r, interval))))"
  by pat_completeness auto
termination
  by (relation "measure (\<lambda>(alive, pid, timeout, t). timeout - t)") auto

definition waitForExit ::
  "(nat \<Rightarrow> bool) \<Rightarrow> int \<Rightarrow> nat \<Rightarrow>
   (nat \<times> effect) list \<times> (proc_error + unit) \<times> nat option" where
  "waitForExit alive pid timeout = waitForExit_poll alive pid timeout 100"

definition later_polls ::
  "(nat \<Rightarrow> bool) \<Rightarrow> int \<Rightarrow> nat option \<Rightarrow> nat \<Rightarrow> (nat \<times> effect) list" where
  "later_polls alive pid interval horizon =
     (case interval of
        None \<Rightarrow> []
      | Some t \<Rightarrow> interval_polls alive pid t horizon)"

definition force_kill ::
  "(nat \<Rightarrow> bool) \<Rightarrow> int \<Rightarrow> nat \<Rightarrow> (nat \<times> effect) list \<times> (proc_error + unit)" where
  "force_kill alive pid t =
     (case process_kill alive t of
        Inl e \<Rightarrow> ([(t, ProcessKill pid SIGKILL)], Inr ())
      | Inr u \<Rightarrow> ([(t, ProcessKill pid SIGKILL)], Inr ()))"

definition kill ::
  "(nat \<Rightarrow> bool) \<Rightarrow> int \<Rightarrow> signal \<Rightarrow> nat \<Rightarrow> (nat \<times> effect) list \<times> (proc_error + unit)" where
  "kill alive pid sig horizon =
     (case process_kill alive 0 of
        Inl e \<Rightarrow>
          (case force_kill alive pid 0 of (tr, r) \<Rightarrow> ((0, ProcessKill pid sig) # tr, r))
      | Inr u \<Rightarrow>
          (case waitForExit alive pid 5000 of
             (polls, Inr u', interval) \<Rightarrow>
               ((0, ProcessKill pid sig) # polls @ later_polls alive pid interval horizon, Inr ())
           | (polls, Inl e, interval) \<Rightarrow>
               (case force_kill alive pid 5000 of
                  (tr, r) \<Rightarrow>
                    ((0, ProcessKill pid sig) # polls @ tr @
                       later_polls alive pid interval horizon, r))))"

definition forced :: "(nat \<times> effect) list \<Rightarrow> bool" where
  "forced tr = list_ex (\<lambda>(t, e). case e of ProcessKill pid s \<Rightarrow> s = SIGKILL | _ \<Rightarrow> False) tr"

definition poll_times :: "(nat \<times> effect) list \<Rightarrow> nat list" where
  "poll_times tr =
     map fst (filter (\<lambda>(t, e). case e of ProcessKill pid s \<Rightarrow> s = SIGZERO | _ \<Rightarrow> False) tr)"

section \<open>DashboardManager.stop (docs/REFACTORING_PLAN.md, service 3)\<close>

text \<open>
  \<^verbatim>\<open>exec\<close> comes from \<^verbatim>\<open>../lib/shell.js\<close>: what a command answers is the parameter
  \<open>exec\<close>, its standard output or the error it throws. The result of \<open>stop\<close> is the
  list of its effects in order (commands run, lines printed) and how the call ends.
  \<^verbatim>\<open>trim\<close> removes the ASCII white space at both ends; the output of \<^verbatim>\<open>lsof -t\<close> is
  made of digits and line feeds.
\<close>

datatype shell_error = CommandFailed

definition is_space :: "char \<Rightarrow> bool" where
  "is_space c = (c \<in> set [CHR '' '', CHR 0x09, CHR 0x0A, CHR 0x0B, CHR 0x0C, CHR 0x0D])"

definition trim :: "string \<Rightarrow> string" where
  "trim s = rev (dropWhile is_space (rev (dropWhile is_space s)))"

fun split_newline :: "string \<Rightarrow> string list" where
  "split_newline [] = [[]]"
| "split_newline (c # cs) =
     (if c = CHR 0x0A then [] # split_newline cs
      else (case split_newline cs of
              [] \<Rightarrow> [[c]]
            | l # ls \<Rightarrow> (c # l) # ls))"

definition pids_of_stdout :: "string \<Rightarrow> string list" where
  "pids_of_stdout stdout = filter (\<lambda>pid. length pid > 0) (split_newline (trim stdout))"

fun collect_pids ::
  "(command \<Rightarrow> shell_error + string) \<Rightarrow> int list \<Rightarrow> string list \<Rightarrow> string list" where
  "collect_pids exec [] allPids = allPids"
| "collect_pids exec (port # ports) allPids =
     (case exec (Lsof port) of
        Inr stdout \<Rightarrow> collect_pids exec ports (allPids @ pids_of_stdout stdout)
      | Inl e \<Rightarrow> collect_pids exec ports allPids)"

text \<open>\<^verbatim>\<open>[...new Set(allPids)]\<close>: a set in insertion order keeps the first occurrence.\<close>

definition new_Set :: "'a list \<Rightarrow> 'a list" where
  "new_Set xs = fold (\<lambda>x acc. if x \<in> set acc then acc else acc @ [x]) xs []"

definition stop ::
  "(command \<Rightarrow> shell_error + string) \<Rightarrow> ServicePorts \<Rightarrow> effect list \<times> (shell_error + unit)" where
  "stop exec ports =
     (let allPorts = [dashboard ports, terminalWs ports, directTerminalWs ports];
          started = ConsoleLog ''Stopping dashboard and WebSocket servers...'' #
                    map (\<lambda>port. Exec (Lsof port)) allPorts;
          allPids = collect_pids exec allPorts []
      in if length allPids = 0
         then (started @ [ConsoleLog ''Dashboard not running''], Inr ())
         else
           (let uniquePids = new_Set allPids in
            case exec (KillPids uniquePids) of
              Inr out \<Rightarrow>
                (started @ [Exec (KillPids uniquePids),
                            ConsoleLog ''Dashboard and WebSocket servers stopped''], Inr ())
            | Inl err \<Rightarrow>
                (started @ [Exec (KillPids uniquePids),
                            ConsoleLog ''Could not stop some processes (may have already exited)''],
                 Inr ())))"

definition is_ProcessKill :: "effect \<Rightarrow> bool" where
  "is_ProcessKill e = (case e of ProcessKill pid s \<Rightarrow> True | _ \<Rightarrow> False)"

text \<open>What one pass of the loop adds for a port, and the \<^verbatim>\<open>kill\<close> commands of a trace.\<close>

definition discovered :: "(command \<Rightarrow> shell_error + string) \<Rightarrow> int \<Rightarrow> string list" where
  "discovered exec port =
     (case exec (Lsof port) of Inl e \<Rightarrow> [] | Inr stdout \<Rightarrow> pids_of_stdout stdout)"

fun kill_commands :: "effect list \<Rightarrow> string list list" where
  "kill_commands [] = []"
| "kill_commands (Exec (KillPids pids) # es) = pids # kill_commands es"
| "kill_commands (e # es) = kill_commands es"

definition nothing_listening :: "(command \<Rightarrow> shell_error + string) \<Rightarrow> ServicePorts \<Rightarrow> bool" where
  "nothing_listening exec ports =
     (discovered exec (dashboard ports) = [] \<and>
      discovered exec (terminalWs ports) = [] \<and>
      discovered exec (directTerminalWs ports) = [])"

section \<open>MetadataService (docs/REFACTORING_PLAN.md, service 4)\<close>

text \<open>
  \<^verbatim>\<open>readMetadata\<close> and \<^verbatim>\<open>writeMetadata\<close> come from \<^verbatim>\<open>@composio/ao-core\<close>: the persisted
  records are the map \<open>disk\<close>, and whether the read or the write of a call throws is the
  \<open>fault\<close> the call is given. A record is a map from field names to values, and
  \<^verbatim>\<open>{ ...existing, ...updates }\<close> is \<open>existing ++ updates\<close>.

  The host runs one piece of code at a time. A call of \<^verbatim>\<open>updateMetadata\<close> runs until its
  first \<^verbatim>\<open>await\<close> and is suspended there; the state of a call says where. A lock is a
  promise, named by a number; \<open>resolved\<close> holds the promises whose resolve function has
  been called. A suspended call can be resumed when the promise it awaits is resolved:
  the promise of \<^verbatim>\<open>acquireLock\<close> is, once its body has come to its end (state
  \<open>AwaitAcquireLock\<close>), a lock promise only if it is in \<open>resolved\<close>.
\<close>

type_synonym SessionMetadata = "string \<rightharpoonup> string"

datatype io_error = ReadError | WriteError

datatype io_fault = NoFault | ReadThrows | WriteThrows

datatype call_state =
    AwaitLockPromise nat
  | AwaitAcquireLock
  | Fulfilled
  | Rejected io_error

record update_call =
  call_dataDir :: string
  call_sessionId :: string
  call_updates :: SessionMetadata
  call_fault :: io_fault
  call_state :: call_state

record MetadataService =
  locks :: "string \<rightharpoonup> nat"
  resolved :: "nat set"
  promise_count :: nat
  disk :: "string \<times> string \<Rightarrow> SessionMetadata option"
  calls :: "update_call list"

definition new_MetadataService :: "(string \<times> string \<Rightarrow> SessionMetadata option) \<Rightarrow> MetadataService" where
  "new_MetadataService d =
     \<lparr>locks = Map.empty, resolved = {}, promise_count = 0, disk = d, calls = []\<rparr>"

definition set_state :: "MetadataService \<Rightarrow> nat \<Rightarrow> call_state \<Rightarrow> MetadataService" where
  "set_state w i st = w\<lparr>calls := (calls w)[i := (calls w ! i)\<lparr>call_state := st\<rparr>]\<rparr>"

text \<open>
  \<^verbatim>\<open>acquireLock\<close> from the head of its loop to its next suspension: it waits on the lock
  it finds, or takes the lock with a new promise. The resolve function of that promise
  is a local variable of \<^verbatim>\<open>acquireLock\<close> and is gone when it returns.
\<close>

definition acquireLock :: "MetadataService \<Rightarrow> nat \<Rightarrow> MetadataService" where
  "acquireLock w i =
     (let sessionId = call_sessionId (calls w ! i) in
      case locks w sessionId of
        Some lockPromise \<Rightarrow> set_state w i (AwaitLockPromise lockPromise)
      | None \<Rightarrow>
          set_state
            (w\<lparr>locks := (locks w)(sessionId \<mapsto> promise_count w),
               promise_count := Suc (promise_count w)\<rparr>)
            i AwaitAcquireLock)"

text \<open>\<^verbatim>\<open>releaseLock\<close> deletes the entry; the body of its \<^verbatim>\<open>if\<close> holds comments only.\<close>

definition releaseLock :: "MetadataService \<Rightarrow> string \<Rightarrow> MetadataService" where
  "releaseLock w sessionId = w\<lparr>locks := (locks w)(sessionId := None)\<rparr>"

text \<open>The call of \<^verbatim>\<open>updateMetadata\<close> itself, up to its first suspension.\<close>

definition updateMetadata ::
  "MetadataService \<Rightarrow> string \<Rightarrow> string \<Rightarrow> SessionMetadata \<Rightarrow> io_fault \<Rightarrow> MetadataService" where
  "updateMetadata w dataDir sessionId updates fault =
     acquireLock
       (w\<lparr>calls := calls w @
            [\<lparr>call_dataDir = dataDir, call_sessionId = sessionId, call_updates = updates,
              call_fault = fault, call_state = AwaitAcquireLock\<rparr>]\<rparr>)
       (length (calls w))"

text \<open>The rest of \<^verbatim>\<open>updateMetadata\<close>, after \<^verbatim>\<open>await this.acquireLock(sessionId)\<close>.\<close>

definition locked_section :: "MetadataService \<Rightarrow> nat \<Rightarrow> MetadataService" where
  "locked_section w i =
     (let c = calls w ! i;
          sessionId = call_sessionId c;
          file = (call_dataDir c, sessionId)
      in case call_fault c of
           ReadThrows \<Rightarrow> set_state (releaseLock w sessionId) i (Rejected ReadError)
         | WriteThrows \<Rightarrow> set_state (releaseLock w sessionId) i (Rejected WriteError)
         | NoFault \<Rightarrow>
             (let existing = (case disk w file of None \<Rightarrow> Map.empty | Some m \<Rightarrow> m);
                  merged = existing ++ call_updates c
              in set_state (releaseLock (w\<lparr>disk := (disk w)(file := Some merged)\<rparr>) sessionId)
                   i Fulfilled))"

definition runnable :: "MetadataService \<Rightarrow> nat \<Rightarrow> bool" where
  "runnable w i =
     (i < length (calls w) \<and>
      (case call_state (calls w ! i) of
         AwaitLockPromise lockPromise \<Rightarrow> lockPromise \<in> resolved w
       | AwaitAcquireLock \<Rightarrow> True
       | Fulfilled \<Rightarrow> False
       | Rejected e \<Rightarrow> False))"

definition resume :: "MetadataService \<Rightarrow> nat \<Rightarrow> MetadataService" where
  "resume w i =
     (if runnable w i then
        (case call_state (calls w ! i) of
           AwaitLockPromise lockPromise \<Rightarrow> acquireLock w i
         | AwaitAcquireLock \<Rightarrow> locked_section w i
         | Fulfilled \<Rightarrow> w
         | Rejected e \<Rightarrow> w)
      else w)"

text \<open>
  A schedule names the suspended calls in the order in which the host resumes them;
  naming a call that cannot be resumed changes nothing.
\<close>

definition run :: "MetadataService \<Rightarrow> nat list \<Rightarrow> MetadataService" where
  "run w schedule = fold (\<lambda>i w'. resume w' i) schedule w"

text \<open>A call that the caller awaits: it is resumed before any other call is made.\<close>

definition update_alone ::
  "MetadataService \<Rightarrow> string \<Rightarrow> string \<Rightarrow> SessionMetadata \<Rightarrow> MetadataService" where
  "update_alone w dataDir sessionId updates =
     resume (updateMetadata w dataDir sessionId updates NoFault) (length (calls w))"

definition record_or_empty :: "SessionMetadata option \<Rightarrow> SessionMetadata" where
  "record_or_empty r = (case r of None \<Rightarrow> Map.empty | Some m \<Rightarrow> m)"

text \<open>
  Two calls for one session, the second made while the first is suspended: the state in
  which the first call has been resumed and has run to its end.
\<close>

abbreviation first_call_done ::
  "(string \<times> string \<Rightarrow> SessionMetadata option) \<Rightarrow> string \<Rightarrow> string \<Rightarrow>
   SessionMetadata \<Rightarrow> io_fault \<Rightarrow> SessionMetadata \<Rightarrow> io_fault \<Rightarrow> MetadataService" where
  "first_call_done d0 dir sid p1 f1 p2 f2 \<equiv>
     \<lparr>locks = Map.empty, resolved = {}, promise_count = Suc 0,
      disk = (case f1 of
                NoFault \<Rightarrow> d0((dir, sid) := Some (record_or_empty (d0 (dir, sid)) ++ p1))
              | ReadThrows \<Rightarrow> d0
              | WriteThrows \<Rightarrow> d0),
      calls = [\<lparr>call_dataDir = dir, call_sessionId = sid, call_updates = p1, call_fault = f1,
                call_state = (case f1 of
                                NoFault \<Rightarrow> Fulfilled
                              | ReadThrows \<Rightarrow> Rejected ReadError
                              | WriteThrows \<Rightarrow> Rejected WriteError)\<rparr>,
               \<lparr>call_dataDir = dir, call_sessionId = sid, call_updates = p2,
                call_fault = f2, call_state = AwaitLockPromise 0\<rparr>]\<rparr>"

section \<open>Enrichment fan-out (enrichSessionPR)\<close>

text \<open>
  Modelled from the spec: \<^verbatim>\<open>enrichSessionPR\<close> lives in \<^verbatim>\<open>serialize.ts\<close>, which is not among
  the sources; the design document only lists its steps. The model follows the spec's
  words: every sub-fetch has settled (\<^verbatim>\<open>Promise.allSettled\<close>) before the merge, a
  fulfilled sub-fetch contributes its field, a rejected one contributes nothing, and the
  result is marked rate limited, with the blocker, when the fraction of rejected
  sub-fetches is at least 0.5.
\<close>

datatype 'v settled = FulfilledWith 'v | RejectedFetch

record 'v enriched =
  merged_fields :: "(string \<times> 'v) list"
  rateLimited :: bool
  blockers :: "string list"

fun merge_settled :: "(string \<times> 'v settled) list \<Rightarrow> (string \<times> 'v) list" where
  "merge_settled [] = []"
| "merge_settled ((name, FulfilledWith v) # rs) = (name, v) # merge_settled rs"
| "merge_settled ((name, RejectedFetch) # rs) = merge_settled rs"

definition failed_count :: "(string \<times> 'v settled) list \<Rightarrow> nat" where
  "failed_count rs = length (filter (\<lambda>(name, r). r = RejectedFetch) rs)"

definition enrichSessionPR :: "(string \<times> 'v settled) list \<Rightarrow> 'v enriched" where
  "enrichSessionPR rs =
     (let limited = ((of_nat (failed_count rs) :: rat) / of_nat (length rs) \<ge> 0.5)
      in \<lparr>merged_fields = merge_settled rs,
          rateLimited = limited,
          blockers = (if limited then [''API rate limited or unavailable''] else [])\<rparr>)"

section \<open>Properties of the cache\<close>

lemma entries_ok_new: "entries_ok (new_TTLCache ttl)"
  by (simp add: entries_ok_def new_TTLCache_def)

lemma set_update_subset: "set (AList.update key v al) \<subseteq> insert (key, v) (set al)"
  by (induction al) auto

lemma set_delete_subset: "set (AList.delete key al) \<subseteq> set al"
  by (auto simp: AList.delete_eq)

lemma set_fold_delete_subset:
  "set (fold (\<lambda>(key, entry) m. if Q entry then AList.delete key m else m) xs m) \<subseteq> set m"
proof (induction xs arbitrary: m)
  case Nil
  show ?case by simp
next
  case (Cons x xs)
  obtain k e where x: "x = (k, e)" by (cases x)
  show ?case
  proof (cases "Q e")
    case True
    with Cons.IH [of "AList.delete k m"] set_delete_subset [of k m] x show ?thesis by auto
  next
    case False
    with Cons.IH [of m] x show ?thesis by auto
  qed
qed

lemma entries_ok_set: "entries_ok c \<Longrightarrow> entries_ok (set_value c key v now)"
  unfolding entries_ok_def set_value_def list_all_iff
  using set_update_subset [of key "\<lparr>entry_value = v, cachedAt = now, expiresAt = now + ttlMs c\<rparr>" "cache c"]
  by auto

lemma entries_ok_getWithMetadata: "entries_ok c \<Longrightarrow> entries_ok (snd (getWithMetadata c key now))"
  unfolding entries_ok_def getWithMetadata_def list_all_iff
  using set_delete_subset [of key "cache c"]
  by (auto simp: Let_def split: option.splits)

lemma entries_ok_get: "entries_ok c \<Longrightarrow> entries_ok (snd (get_value c key now))"
  using entries_ok_getWithMetadata [of c key now]
  by (auto simp: get_value_def split: prod.splits option.splits)

lemma entries_ok_evictExpired: "entries_ok c \<Longrightarrow> entries_ok (evictExpired c now)"
  unfolding entries_ok_def evictExpired_def list_all_iff
  using set_fold_delete_subset [of "\<lambda>e. now > expiresAt e" "cache c" "cache c"]
  by auto

lemma entries_ok_clear: "entries_ok (clear c)"
  by (simp add: entries_ok_def clear_def)

lemma entries_ok_lookup:
  "entries_ok c \<Longrightarrow> map_of (cache c) key = Some entry \<Longrightarrow> expiresAt entry = cachedAt entry + ttlMs c"
  unfolding entries_ok_def
  by (auto simp: list_all_iff dest!: map_of_SomeD)

lemma map_of_delete_same: "map_of (AList.delete key al) key = None"
  by (simp add: AList.delete_conv')

lemma getWithMetadata_found:
  assumes "entries_ok c" and "map_of (cache c) key = Some entry"
  shows "getWithMetadata c key now =
           (if now - cachedAt entry > ttlMs c
            then (None, c\<lparr>cache := AList.delete key (cache c)\<rparr>)
            else (Some \<lparr>cv_value = entry_value entry, cv_cachedAt = cachedAt entry,
                        ageMs = now - cachedAt entry, cv_ttlMs = ttlMs c,
                        stale = ((of_int (now - cachedAt entry) :: rat) > of_int (ttlMs c) * 0.75)\<rparr>, c))"
  using entries_ok_lookup [OF assms] assms(2)
  by (auto simp: getWithMetadata_def Let_def)

lemma set_value_lookup:
  "map_of (cache (set_value c key v t0)) key =
     Some \<lparr>entry_value = v, cachedAt = t0, expiresAt = t0 + ttlMs c\<rparr>"
  by (simp add: set_value_def AList.update_conv')

lemma ttl_set_value: "ttlMs (set_value c key v t0) = ttlMs c"
  by (simp add: set_value_def)

text \<open>
  C8. In a cache whose entries were written by \<open>set\<close>, a stored entry whose age
  (\<open>now - cachedAt\<close>) exceeds the TTL is not returned by \<open>getWithMetadata\<close> or \<open>get\<close> and
  is deleted by that very access; an entry that is returned carries its age, and
  \<open>stale\<close> holds exactly when the age exceeds 0.75 times the TTL. With a TTL of
  60000 ms, an entry written at \<open>t0\<close> is returned at \<open>t0 + 46000\<close> with age 46000 and
  \<open>stale = True\<close>, and at \<open>t0 + 61000\<close> the answer is absent and the entry is gone.
\<close>

theorem cache_expiry_and_staleness:
  fixes c :: "'a TTLCache"
  assumes "entries_ok c"
  shows
    "(\<forall>entry. map_of (cache c) key = Some entry \<longrightarrow>
        (now - cachedAt entry > ttlMs c \<longrightarrow>
           getWithMetadata c key now = (None, c\<lparr>cache := AList.delete key (cache c)\<rparr>) \<and>
           get_value c key now = (None, c\<lparr>cache := AList.delete key (cache c)\<rparr>) \<and>
           map_of (AList.delete key (cache c)) key = None) \<and>
        (\<not> now - cachedAt entry > ttlMs c \<longrightarrow>
           getWithMetadata c key now =
             (Some \<lparr>cv_value = entry_value entry, cv_cachedAt = cachedAt entry,
                    ageMs = now - cachedAt entry, cv_ttlMs = ttlMs c,
                    stale = ((of_int (now - cachedAt entry) :: rat) > 0.75 * of_int (ttlMs c))\<rparr>, c))) \<and>
     (ttlMs c = 60000 \<longrightarrow>
        (let c1 = set_value c key v t0 in
           getWithMetadata c1 key (t0 + 46000) =
             (Some \<lparr>cv_value = v, cv_cachedAt = t0, ageMs = 46000, cv_ttlMs = 60000, stale = True\<rparr>, c1) \<and>
           getWithMetadata c1 key (t0 + 61000) = (None, c1\<lparr>cache := AList.delete key (cache c1)\<rparr>) \<and>
           get_value c1 key (t0 + 61000) = (None, c1\<lparr>cache := AList.delete key (cache c1)\<rparr>) \<and>
           map_of (AList.delete key (cache c1)) key = None))"
proof -
  have general: "\<And>(c :: 'a TTLCache) entry now. entries_ok c \<Longrightarrow> map_of (cache c) key = Some entry \<Longrightarrow>
        (now - cachedAt entry > ttlMs c \<longrightarrow>
           getWithMetadata c key now = (None, c\<lparr>cache := AList.delete key (cache c)\<rparr>) \<and>
           get_value c key now = (None, c\<lparr>cache := AList.delete key (cache c)\<rparr>) \<and>
           map_of (AList.delete key (cache c)) key = None) \<and>
        (\<not> now - cachedAt entry > ttlMs c \<longrightarrow>
           getWithMetadata c key now =
             (Some \<lparr>cv_value = entry_value entry, cv_cachedAt = cachedAt entry,
                    ageMs = now - cachedAt entry, cv_ttlMs = ttlMs c,
                    stale = ((of_int (now - cachedAt entry) :: rat) > 0.75 * of_int (ttlMs c))\<rparr>, c))"
    by (simp add: getWithMetadata_found get_value_def map_of_delete_same mult.commute)
  have part1: "\<forall>entry. map_of (cache c) key = Some entry \<longrightarrow>
        (now - cachedAt entry > ttlMs c \<longrightarrow>
           getWithMetadata c key now = (None, c\<lparr>cache := AList.delete key (cache c)\<rparr>) \<and>
           get_value c key now = (None, c\<lparr>cache := AList.delete key (cache c)\<rparr>) \<and>
           map_of (AList.delete key (cache c)) key = None) \<and>
        (\<not> now - cachedAt entry > ttlMs c \<longrightarrow>
           getWithMetadata c key now =
             (Some \<lparr>cv_value = entry_value entry, cv_cachedAt = cachedAt entry,
                    ageMs = now - cachedAt entry, cv_ttlMs = ttlMs c,
                    stale = ((of_int (now - cachedAt entry) :: rat) > 0.75 * of_int (ttlMs c))\<rparr>, c))"
    using general [OF assms] by blast
  have part2: "ttlMs c = 60000 \<longrightarrow>
        (let c1 = set_value c key v t0 in
           getWithMetadata c1 key (t0 + 46000) =
             (Some \<lparr>cv_value = v, cv_cachedAt = t0, ageMs = 46000, cv_ttlMs = 60000, stale = True\<rparr>, c1) \<and>
           getWithMetadata c1 key (t0 + 61000) = (None, c1\<lparr>cache := AList.delete key (cache c1)\<rparr>) \<and>
           get_value c1 key (t0 + 61000) = (None, c1\<lparr>cache := AList.delete key (cache c1)\<rparr>) \<and>
           map_of (AList.delete key (cache c1)) key = None)"
  proof
    assume ttl: "ttlMs c = 60000"
    let ?c1 = "set_value c key v t0"
    let ?e = "\<lparr>entry_value = v, cachedAt = t0, expiresAt = t0 + ttlMs c\<rparr>"
    have ok: "entries_ok ?c1" by (rule entries_ok_set [OF assms])
    have lk: "map_of (cache ?c1) key = Some ?e" by (rule set_value_lookup)
    have t1: "ttlMs ?c1 = 60000" by (simp add: ttl_set_value ttl)
    from general [OF ok lk, of "t0 + 46000"] general [OF ok lk, of "t0 + 61000"]
    show "let c1 = set_value c key v t0 in
           getWithMetadata c1 key (t0 + 46000) =
             (Some \<lparr>cv_value = v, cv_cachedAt = t0, ageMs = 46000, cv_ttlMs = 60000, stale = True\<rparr>, c1) \<and>
           getWithMetadata c1 key (t0 + 61000) = (None, c1\<lparr>cache := AList.delete key (cache c1)\<rparr>) \<and>
           get_value c1 key (t0 + 61000) = (None, c1\<lparr>cache := AList.delete key (cache c1)\<rparr>) \<and>
           map_of (AList.delete key (cache c1)) key = None"
      by (simp add: t1 Let_def)
  qed
  from part1 part2 show ?thesis by blast
qed

theorem cache_expiry_and_staleness_witness:
  "let c = set_value (new_TTLCache 60000) ''acme/app#7'' (1::nat) 1000 in
     entries_ok c \<and>
     getWithMetadata c ''acme/app#7'' 47000 =
       (Some \<lparr>cv_value = 1, cv_cachedAt = 1000, ageMs = 46000, cv_ttlMs = 60000, stale = True\<rparr>, c) \<and>
     getWithMetadata c ''acme/app#7'' 46000 =
       (Some \<lparr>cv_value = 1, cv_cachedAt = 1000, ageMs = 45000, cv_ttlMs = 60000, stale = False\<rparr>, c) \<and>
     getWithMetadata c ''acme/app#7'' 62000 = (None, new_TTLCache 60000) \<and>
     get_value c ''acme/app#7'' 62000 = (None, new_TTLCache 60000)"
proof -
  let ?c = "set_value (new_TTLCache 60000) ''acme/app#7'' (1::nat) 1000"
  have ok: "entries_ok ?c"
    by (simp add: entries_ok_def set_value_def new_TTLCache_def)
  have lk: "map_of (cache ?c) ''acme/app#7'' = Some \<lparr>entry_value = 1, cachedAt = 1000, expiresAt = 61000\<rparr>"
    by (simp add: set_value_def new_TTLCache_def)
  have del: "?c\<lparr>cache := AList.delete ''acme/app#7'' (cache ?c)\<rparr> = new_TTLCache 60000"
    by (simp add: set_value_def new_TTLCache_def AList.delete_eq)
  have t: "ttlMs ?c = 60000" by (simp add: set_value_def new_TTLCache_def)
  from cache_expiry_and_staleness [OF ok, of "''acme/app#7''" 47000 undefined undefined]
       cache_expiry_and_staleness [OF ok, of "''acme/app#7''" 46000 undefined undefined]
       cache_expiry_and_staleness [OF ok, of "''acme/app#7''" 62000 undefined undefined]
  show ?thesis
    using ok lk del t by (simp add: Let_def)
qed

lemma length_filter_less_mem:
  "x \<in> set xs \<Longrightarrow> \<not> P x \<Longrightarrow> length (filter P xs) < length xs"
  by (induction xs) (auto simp: less_Suc_eq_le)

text \<open>
  C10. \<open>size\<close> is the raw number of stored entries, whatever the clock says. Whenever
  the cache still stores an entry whose age exceeds the TTL at \<open>now\<close> (no access and no
  sweep has removed it yet), \<open>get\<close> answers absent for its key, and \<open>size\<close> is strictly
  greater than the number of keys for which \<open>get\<close> returns a value.
\<close>

theorem size_counts_expired_entries:
  fixes c :: "'a TTLCache"
  assumes "entries_ok c" and "map_of (cache c) key = Some entry"
    and "now - cachedAt entry > ttlMs c"
  shows "size_cache c = length (cache c) \<and>
         fst (get_value c key now) = None \<and>
         length (live_keys c now) < size_cache c"
proof -
  have ex: "now > expiresAt entry"
    using entries_ok_lookup [OF assms(1,2)] assms(3) by simp
  have g: "fst (get_value c key now) = None"
    using assms(2) ex by (simp add: get_value_def getWithMetadata_def)
  have "key \<in> set (map fst (cache c))"
    using assms(2) by (metis map_of_eq_None_iff option.distinct(1) set_map)
  then have "length (live_keys c now) < length (map fst (cache c))"
    unfolding live_keys_def using g by (intro length_filter_less_mem [of key]) auto
  then show ?thesis using g by (simp add: size_cache_def)
qed

theorem size_counts_expired_entries_witness:
  "let c = set_value (new_TTLCache 60000) ''acme/app#7'' (1::nat) 1000 in
     size_cache c = 1 \<and> fst (get_value c ''acme/app#7'' 61001) = None \<and>
     live_keys c 61001 = [] \<and> length (live_keys c 61001) < size_cache c"
proof -
  let ?c = "set_value (new_TTLCache 60000) ''acme/app#7'' (1::nat) 1000"
  have ok: "entries_ok ?c"
    by (rule entries_ok_set [OF entries_ok_new])
  have lk: "map_of (cache ?c) ''acme/app#7'' = Some \<lparr>entry_value = 1, cachedAt = 1000, expiresAt = 61000\<rparr>"
    by (simp add: set_value_def new_TTLCache_def)
  have age: "61001 - cachedAt \<lparr>entry_value = 1::nat, cachedAt = 1000, expiresAt = 61000\<rparr> > ttlMs ?c"
    by (simp add: set_value_def new_TTLCache_def)
  have sz: "size_cache ?c = 1"
    by (simp add: size_cache_def set_value_def new_TTLCache_def)
  have lv: "live_keys ?c 61001 = []"
    by (simp add: live_keys_def get_value_def getWithMetadata_def set_value_def new_TTLCache_def)
  from size_counts_expired_entries [OF ok lk age]
  show ?thesis using sz lv by (simp add: Let_def)
qed

section \<open>Properties of the port manager\<close>

lemma find_loop_unfold:
  "find_loop avail pm preferred maxAttempts offset =
     (if offset < maxAttempts then
        (if preferred + int offset \<in> allocatedPorts pm
         then find_loop avail pm preferred maxAttempts (Suc offset)
         else if avail (preferred + int offset)
              then (Inr (preferred + int offset),
                    pm\<lparr>allocatedPorts := insert (preferred + int offset) (allocatedPorts pm)\<rparr>)
              else find_loop avail pm preferred maxAttempts (Suc offset))
      else (Inl (CouldNotFindPort preferred maxAttempts), pm))"
  by (subst find_loop.simps) (simp add: Let_def)

declare find_loop.simps [simp del]

lemma find_loop_exhausted:
  "(\<And>i. offset \<le> i \<Longrightarrow> i < maxAttempts \<Longrightarrow>
         preferred + int i \<in> allocatedPorts pm \<or> \<not> avail (preferred + int i)) \<Longrightarrow>
   find_loop avail pm preferred maxAttempts offset = (Inl (CouldNotFindPort preferred maxAttempts), pm)"
proof (induction avail pm preferred maxAttempts offset rule: find_loop.induct)
  case (1 avail pm preferred maxAttempts offset)
  show ?case
  proof (cases "offset < maxAttempts")
    case False
    then show ?thesis by (subst find_loop_unfold) simp
  next
    case True
    have here: "preferred + int offset \<in> allocatedPorts pm \<or> \<not> avail (preferred + int offset)"
      using "1.prems" [of offset] True by simp
    have rest: "find_loop avail pm preferred maxAttempts (Suc offset) =
                  (Inl (CouldNotFindPort preferred maxAttempts), pm)"
    proof (cases "preferred + int offset \<in> allocatedPorts pm")
      case True
      show ?thesis
        by (rule "1.IH"(1) [OF \<open>offset < maxAttempts\<close> refl True]) (simp add: "1.prems")
    next
      case False
      with here have na: "\<not> avail (preferred + int offset)" by simp
      show ?thesis
        by (rule "1.IH"(2) [OF \<open>offset < maxAttempts\<close> refl False na]) (simp add: "1.prems")
    qed
    show ?thesis
      using True here rest by (subst find_loop_unfold) auto
  qed
qed

lemma find_loop_first_free:
  "offset \<le> j \<Longrightarrow> j < maxAttempts \<Longrightarrow>
   (\<And>i. offset \<le> i \<Longrightarrow> i < j \<Longrightarrow>
         preferred + int i \<in> allocatedPorts pm \<or> \<not> avail (preferred + int i)) \<Longrightarrow>
   preferred + int j \<notin> allocatedPorts pm \<Longrightarrow> avail (preferred + int j) \<Longrightarrow>
   find_loop avail pm preferred maxAttempts offset =
     (Inr (preferred + int j), pm\<lparr>allocatedPorts := insert (preferred + int j) (allocatedPorts pm)\<rparr>)"
proof (induction avail pm preferred maxAttempts offset rule: find_loop.induct)
  case (1 avail pm preferred maxAttempts offset)
  have lt: "offset < maxAttempts" using "1.prems"(1,2) by simp
  show ?case
  proof (cases "offset = j")
    case True
    then show ?thesis
      using lt "1.prems"(4,5) by (subst find_loop_unfold) simp
  next
    case False
    then have oj: "offset < j" using "1.prems"(1) by simp
    have here: "preferred + int offset \<in> allocatedPorts pm \<or> \<not> avail (preferred + int offset)"
      using "1.prems"(3) [of offset] oj by simp
    have rest: "find_loop avail pm preferred maxAttempts (Suc offset) =
       (Inr (preferred + int j), pm\<lparr>allocatedPorts := insert (preferred + int j) (allocatedPorts pm)\<rparr>)"
    proof (cases "preferred + int offset \<in> allocatedPorts pm")
      case True
      show ?thesis
        using oj "1.prems"
        by (intro "1.IH"(1) [OF lt refl True]) auto
    next
      case False
      with here have na: "\<not> avail (preferred + int offset)" by simp
      show ?thesis
        using oj "1.prems"
        by (intro "1.IH"(2) [OF lt refl False na]) auto
    qed
    show ?thesis
      using lt here rest by (subst find_loop_unfold) auto
  qed
qed

lemma find_loop_result:
  "find_loop avail pm preferred maxAttempts offset = (r, pm') \<Longrightarrow>
   (case r of
      Inl e \<Rightarrow> pm' = pm
    | Inr q \<Rightarrow> q \<notin> allocatedPorts pm \<and> avail q \<and>
               pm' = pm\<lparr>allocatedPorts := insert q (allocatedPorts pm)\<rparr>)"
proof (induction avail pm preferred maxAttempts offset rule: find_loop.induct)
  case (1 avail pm preferred maxAttempts offset)
  show ?case
  proof (cases "offset < maxAttempts")
    case False
    with "1.prems" show ?thesis by (subst (asm) find_loop_unfold) auto
  next
    case lt: True
    show ?thesis
    proof (cases "preferred + int offset \<in> allocatedPorts pm")
      case True
      with lt "1.prems" have "find_loop avail pm preferred maxAttempts (Suc offset) = (r, pm')"
        by (subst (asm) find_loop_unfold) simp
      then show ?thesis by (rule "1.IH"(1) [OF lt refl True])
    next
      case False
      show ?thesis
      proof (cases "avail (preferred + int offset)")
        case True
        with lt False "1.prems" show ?thesis by (subst (asm) find_loop_unfold) auto
      next
        case na: False
        with lt False "1.prems" have "find_loop avail pm preferred maxAttempts (Suc offset) = (r, pm')"
          by (subst (asm) find_loop_unfold) simp
        then show ?thesis by (rule "1.IH"(2) [OF lt refl False na])
      qed
    qed
  qed
qed

lemma findNextAvailable_keeps:
  "findNextAvailable avail pm preferred = (r, pm') \<Longrightarrow>
   allocatedPorts pm \<subseteq> allocatedPorts pm' \<and> (\<forall>q. r = Inr q \<longrightarrow> q \<notin> allocatedPorts pm)"
  unfolding findNextAvailable_def
  by (drule find_loop_result) (auto split: sum.splits)

lemma pm_run_never_returns_claimed:
  "q \<in> allocatedPorts pm \<Longrightarrow> \<not> list_ex (releases q) ops \<Longrightarrow> Inr q \<notin> set (fst (pm_run pm ops))"
proof (induction ops arbitrary: pm)
  case Nil
  show ?case by simp
next
  case (Cons op ops)
  show ?case
  proof (cases op)
    case (Allocate avail preferred)
    obtain r pm' where f: "findNextAvailable avail pm preferred = (r, pm')"
      by (cases "findNextAvailable avail pm preferred")
    from findNextAvailable_keeps [OF f] Cons.prems(1)
    have q': "q \<in> allocatedPorts pm'" and rq: "r \<noteq> Inr q" by auto
    have "Inr q \<notin> set (fst (pm_run pm' ops))"
      using Cons.IH [OF q'] Cons.prems(2) by simp
    then show ?thesis
      using Allocate f rq by (auto split: prod.splits)
  next
    case (Release p)
    with Cons.prems(2) have "p \<noteq> q" and no: "\<not> list_ex (releases q) ops" by auto
    then have "q \<in> allocatedPorts (release pm p)"
      using Cons.prems(1) by (simp add: release_def)
    from Cons.IH [OF this no] show ?thesis using Release by simp
  next
    case ReleaseAll
    with Cons.prems(2) show ?thesis by simp
  qed
qed

text \<open>
  C4. When each of the ten candidates \<open>P, ..., P + 9\<close> is claimed by this instance or
  bound at the operating system, the allocation fails with the error that names \<open>P\<close>
  and the ten attempts, and the instance is left exactly as it was: no port is claimed.
\<close>

theorem allocate_exhausted_fails_without_claim:
  assumes "\<forall>i<10. P + int i \<in> allocatedPorts pm \<or> \<not> avail (P + int i)"
  shows "findNextAvailable avail pm P = (Inl (CouldNotFindPort P 10), pm)"
  unfolding findNextAvailable_def
  using assms by (intro find_loop_exhausted) auto

theorem allocate_exhausted_fails_without_claim_witness:
  "(let pm = \<lparr>allocatedPorts = {3000, 3001}\<rparr>; avail = (\<lambda>p::int. 3010 \<le> p) in
      list_all (\<lambda>i. 3000 + int i \<in> allocatedPorts pm \<or> \<not> avail (3000 + int i)) [0, 1, 2, 3, 4, 5, 6, 7, 8, 9] \<and>
      findNextAvailable avail pm 3000 = (Inl (CouldNotFindPort 3000 10), pm))"
proof -
  let ?pm = "\<lparr>allocatedPorts = {3000, 3001 :: int}\<rparr>"
  let ?avail = "\<lambda>p::int. 3010 \<le> p"
  have h: "\<forall>i<10. 3000 + int i \<in> allocatedPorts ?pm \<or> \<not> ?avail (3000 + int i)"
    by auto
  from allocate_exhausted_fails_without_claim [OF h]
  show ?thesis by (simp add: Let_def)
qed

text \<open>
  C3, amended. The budget of ten attempts covers the candidates \<open>P, ..., P + 9\<close>. When
  \<open>P, ..., P + k\<close> are each claimed or bound, \<open>P + k + 1\<close> is free and unclaimed and
  \<open>k + 1 < 10\<close>, the allocation returns \<open>P + k + 1\<close> and records it as claimed; and in
  every later history of calls on the instance that does not release that port, no
  allocation returns it again, whatever the operating system answers.
\<close>

theorem allocate_skips_to_first_free:
  assumes "Suc k < 10"
    and "\<forall>i\<le>k. P + int i \<in> allocatedPorts pm \<or> \<not> avail (P + int i)"
    and "P + int k + 1 \<notin> allocatedPorts pm"
    and "avail (P + int k + 1)"
  shows "findNextAvailable avail pm P =
           (Inr (P + int k + 1), pm\<lparr>allocatedPorts := insert (P + int k + 1) (allocatedPorts pm)\<rparr>) \<and>
         (\<forall>ops. \<not> list_ex (releases (P + int k + 1)) ops \<longrightarrow>
            Inr (P + int k + 1) \<notin> set (fst (pm_run (snd (findNextAvailable avail pm P)) ops)))"
proof -
  have eq: "P + int (Suc k) = P + int k + 1" by simp
  have f: "findNextAvailable avail pm P =
           (Inr (P + int k + 1), pm\<lparr>allocatedPorts := insert (P + int k + 1) (allocatedPorts pm)\<rparr>)"
  proof -
    have "find_loop avail pm P 10 0 =
            (Inr (P + int (Suc k)), pm\<lparr>allocatedPorts := insert (P + int (Suc k)) (allocatedPorts pm)\<rparr>)"
    proof (rule find_loop_first_free)
      show "0 \<le> Suc k" by simp
      show "Suc k < 10" by (rule assms(1))
      show "P + int i \<in> allocatedPorts pm \<or> \<not> avail (P + int i)" if "i < Suc k" for i
        using assms(2) that by (simp add: less_Suc_eq_le)
      show "P + int (Suc k) \<notin> allocatedPorts pm" using assms(3) unfolding eq .
      show "avail (P + int (Suc k))" using assms(4) unfolding eq .
    qed
    then show ?thesis unfolding eq findNextAvailable_def .
  qed
  show ?thesis
    using f pm_run_never_returns_claimed [of "P + int k + 1"
      "pm\<lparr>allocatedPorts := insert (P + int k + 1) (allocatedPorts pm)\<rparr>"]
    by simp
qed

theorem allocate_skips_to_first_free_witness:
  "(let pm = \<lparr>allocatedPorts = {3001}\<rparr>; avail = (\<lambda>p::int. p \<noteq> 3000 \<and> p \<noteq> 3002) in
      findNextAvailable avail pm 3000 = (Inr 3003, \<lparr>allocatedPorts = {3003, 3001}\<rparr>) \<and>
      fst (pm_run \<lparr>allocatedPorts = {3003, 3001}\<rparr>
             [Allocate (\<lambda>p. True) 3000, Release 3001, Allocate (\<lambda>p. True) 3003]) =
        [Inr 3000, Inr 3004])"
proof -
  let ?pm = "\<lparr>allocatedPorts = {3001 :: int}\<rparr>"
  let ?avail = "\<lambda>p::int. p \<noteq> 3000 \<and> p \<noteq> 3002"
  have h1: "Suc 2 < 10" by simp
  have h2: "\<forall>i\<le>2. 3000 + int i \<in> allocatedPorts ?pm \<or> \<not> ?avail (3000 + int i)"
  proof (intro allI impI)
    fix i :: nat assume "i \<le> 2"
    then have "i = 0 \<or> i = 1 \<or> i = 2" by arith
    then show "3000 + int i \<in> allocatedPorts ?pm \<or> \<not> ?avail (3000 + int i)" by auto
  qed
  have h3: "3000 + int 2 + 1 \<notin> allocatedPorts ?pm" by simp
  have h4: "?avail (3000 + int 2 + 1)" by simp
  have r: "fst (pm_run \<lparr>allocatedPorts = {3003, 3001}\<rparr>
             [Allocate (\<lambda>p. True) 3000, Release 3001, Allocate (\<lambda>p. True) 3003]) =
        [Inr 3000, Inr 3004]"
    by (simp add: findNextAvailable_def find_loop_unfold release_def)
  from allocate_skips_to_first_free [OF h1 h2 h3 h4]
  show ?thesis using r by (simp add: Let_def)
qed

text \<open>
  The claim as stated allows \<open>k = 9\<close>: with \<open>3000, ..., 3009\<close> bound and \<open>3010\<close> free
  and unclaimed, the allocation does not return \<open>3010\<close>; it fails after ten attempts.
\<close>

theorem allocate_budget_counterexample:
  "(let pm = \<lparr>allocatedPorts = {}\<rparr>; avail = (\<lambda>p::int. 3010 \<le> p) in
      (9::nat) < 10 \<and>
      list_all (\<lambda>i. \<not> avail (3000 + int i)) [0, 1, 2, 3, 4, 5, 6, 7, 8, 9] \<and>
      3000 + int 9 + 1 \<notin> allocatedPorts pm \<and> avail (3000 + int 9 + 1) \<and>
      findNextAvailable avail pm 3000 = (Inl (CouldNotFindPort 3000 10), pm))"
proof -
  have "findNextAvailable (\<lambda>p::int. 3010 \<le> p) \<lparr>allocatedPorts = {}\<rparr> 3000 =
          (Inl (CouldNotFindPort 3000 10), \<lparr>allocatedPorts = {}\<rparr>)"
    unfolding findNextAvailable_def by (intro find_loop_exhausted) auto
  then show ?thesis by (simp add: Let_def)
qed

section \<open>Properties of the process manager\<close>

declare waitForExit_poll.simps [simp del]

declare interval_polls.simps [simp del]


lemma interval_polls_dead:
  "t \<le> horizon \<Longrightarrow> \<not> alive t \<Longrightarrow>
   interval_polls alive pid t horizon = [(t, ProcessKill pid SIGZERO)]"
  by (subst interval_polls.simps) (simp add: process_kill_def)

lemma interval_polls_alive:
  "t \<le> horizon \<Longrightarrow> alive t \<Longrightarrow>
   interval_polls alive pid t horizon =
     (t, ProcessKill pid SIGZERO) # interval_polls alive pid (t + 100) horizon"
  by (subst interval_polls.simps) (simp add: process_kill_def)

lemma polls_from_Suc:
  "map (\<lambda>j. (t + 100 * j, ProcessKill pid SIGZERO)) [0..<Suc n] =
     (t, ProcessKill pid SIGZERO) #
       map (\<lambda>j. (t + 100 + 100 * j, ProcessKill pid SIGZERO)) [0..<n]"
  by (simp add: upt_conv_Cons map_Suc_upt [symmetric] add.assoc del: upt_Suc)



lemma waitForExit_poll_timeout:
  "timeout \<le> t \<Longrightarrow>
   waitForExit_poll alive pid timeout t = ([], Inl (DidNotExit pid timeout), Some t)"
  by (subst waitForExit_poll.simps) simp

lemma waitForExit_poll_dead:
  "t < timeout \<Longrightarrow> \<not> alive t \<Longrightarrow>
   waitForExit_poll alive pid timeout t = ([(t, ProcessKill pid SIGZERO)], Inr (), None)"
  by (subst waitForExit_poll.simps) (simp add: process_kill_def)

lemma waitForExit_poll_alive:
  "t < timeout \<Longrightarrow> alive t \<Longrightarrow>
   waitForExit_poll alive pid timeout t =
     ((t, ProcessKill pid SIGZERO) # fst (waitForExit_poll alive pid timeout (t + 100)),
      snd (waitForExit_poll alive pid timeout (t + 100)))"
  by (subst waitForExit_poll.simps) (simp add: process_kill_def split: prod.splits)

lemma waitForExit_poll_outcome:
  "fst (snd (waitForExit_poll alive pid timeout t)) =
     (if \<exists>n. t + 100 * n < timeout \<and> \<not> alive (t + 100 * n)
      then Inr () else Inl (DidNotExit pid timeout))"
proof (induction alive pid timeout t rule: waitForExit_poll.induct)
  case (1 alive pid timeout t)
  show ?case
  proof (cases "timeout \<le> t")
    case True
    then have "\<not> (\<exists>n. t + 100 * n < timeout \<and> \<not> alive (t + 100 * n))" by auto
    with True show ?thesis by (simp add: waitForExit_poll_timeout)
  next
    case False
    then have lt: "t < timeout" by simp
    show ?thesis
    proof (cases "alive t")
      case False
      then have "\<exists>n. t + 100 * n < timeout \<and> \<not> alive (t + 100 * n)"
        using lt by (intro exI [of _ 0]) simp
      with lt False show ?thesis by (simp add: waitForExit_poll_dead)
    next
      case True
      have pk: "process_kill alive t = Inr ()" using True by (simp add: process_kill_def)
      have ih: "fst (snd (waitForExit_poll alive pid timeout (t + 100))) =
          (if \<exists>n. t + 100 + 100 * n < timeout \<and> \<not> alive (t + 100 + 100 * n)
           then Inr () else Inl (DidNotExit pid timeout))"
        using "1.IH" [OF \<open>\<not> timeout \<le> t\<close> pk] .
      have shift: "(\<exists>n. t + 100 * n < timeout \<and> \<not> alive (t + 100 * n)) =
                   (\<exists>n. t + 100 + 100 * n < timeout \<and> \<not> alive (t + 100 + 100 * n))"
      proof
        assume "\<exists>n. t + 100 * n < timeout \<and> \<not> alive (t + 100 * n)"
        then obtain n where n: "t + 100 * n < timeout" "\<not> alive (t + 100 * n)" by blast
        with True obtain m where "n = Suc m" by (cases n) auto
        with n have "t + 100 + 100 * m < timeout \<and> \<not> alive (t + 100 + 100 * m)"
          by (simp add: add.assoc)
        then show "\<exists>n. t + 100 + 100 * n < timeout \<and> \<not> alive (t + 100 + 100 * n)" ..
      next
        assume "\<exists>n. t + 100 + 100 * n < timeout \<and> \<not> alive (t + 100 + 100 * n)"
        then obtain m where "t + 100 + 100 * m < timeout" "\<not> alive (t + 100 + 100 * m)" by blast
        then have "t + 100 * Suc m < timeout \<and> \<not> alive (t + 100 * Suc m)"
          by (simp add: add.assoc)
        then show "\<exists>n. t + 100 * n < timeout \<and> \<not> alive (t + 100 * n)" ..
      qed
      show ?thesis
        unfolding shift using ih lt True by (simp add: waitForExit_poll_alive)
    qed
  qed
qed

lemma waitForExit_poll_trace:
  "fst (waitForExit_poll alive pid timeout t) =
     map (\<lambda>j. (t + 100 * j, ProcessKill pid SIGZERO))
       [0..<length (fst (waitForExit_poll alive pid timeout t))]"
proof (induction alive pid timeout t rule: waitForExit_poll.induct)
  case (1 alive pid timeout t)
  show ?case
  proof (cases "timeout \<le> t")
    case True
    then show ?thesis by (simp add: waitForExit_poll_timeout)
  next
    case False
    then have lt: "t < timeout" by simp
    show ?thesis
    proof (cases "alive t")
      case False
      with lt show ?thesis by (simp add: waitForExit_poll_dead)
    next
      case True
      have pk: "process_kill alive t = Inr ()" using True by (simp add: process_kill_def)
      let ?rest = "fst (waitForExit_poll alive pid timeout (t + 100))"
      have ih: "?rest = map (\<lambda>j. (t + 100 + 100 * j, ProcessKill pid SIGZERO)) [0..<length ?rest]"
        using "1.IH" [OF \<open>\<not> timeout \<le> t\<close> pk] .
      have "(t, ProcessKill pid SIGZERO) # ?rest =
            map (\<lambda>j. (t + 100 * j, ProcessKill pid SIGZERO)) [0..<Suc (length ?rest)]"
        by (subst polls_from_Suc) (use ih in simp)
      then show ?thesis
        using lt True by (simp add: waitForExit_poll_alive del: upt_Suc)
    qed
  qed
qed

text \<open>
  What is left of the interval: nothing after a poll has found the process gone; after
  the timer has fired it is due again 100 ms after its last poll. In that case every poll
  so far found the process alive.
\<close>

lemma waitForExit_poll_interval:
  "snd (snd (waitForExit_poll alive pid timeout t)) =
     (if fst (snd (waitForExit_poll alive pid timeout t)) = Inr () then None
      else Some (t + 100 * length (fst (waitForExit_poll alive pid timeout t))))"
proof (induction alive pid timeout t rule: waitForExit_poll.induct)
  case (1 alive pid timeout t)
  show ?case
  proof (cases "timeout \<le> t")
    case True
    then show ?thesis by (simp add: waitForExit_poll_timeout)
  next
    case False
    then have lt: "t < timeout" by simp
    show ?thesis
    proof (cases "alive t")
      case False
      with lt show ?thesis by (simp add: waitForExit_poll_dead)
    next
      case True
      have pk: "process_kill alive t = Inr ()" using True by (simp add: process_kill_def)
      from "1.IH" [OF \<open>\<not> timeout \<le> t\<close> pk] lt True
      show ?thesis by (simp add: waitForExit_poll_alive add.assoc)
    qed
  qed
qed

lemma waitForExit_poll_interval_due:
  "t < timeout + 100 \<Longrightarrow> fst (snd (waitForExit_poll alive pid timeout t)) \<noteq> Inr () \<Longrightarrow>
   \<exists>t'. snd (snd (waitForExit_poll alive pid timeout t)) = Some t' \<and>
        timeout \<le> t' \<and> t' < timeout + 100"
proof (induction alive pid timeout t rule: waitForExit_poll.induct)
  case (1 alive pid timeout t)
  show ?case
  proof (cases "timeout \<le> t")
    case True
    with "1.prems"(1) show ?thesis by (simp add: waitForExit_poll_timeout)
  next
    case False
    then have lt: "t < timeout" by simp
    show ?thesis
    proof (cases "alive t")
      case False
      with lt "1.prems"(2) show ?thesis by (simp add: waitForExit_poll_dead)
    next
      case True
      have pk: "process_kill alive t = Inr ()" using True by (simp add: process_kill_def)
      have nxt: "t + 100 < timeout + 100" using lt by simp
      have rej: "fst (snd (waitForExit_poll alive pid timeout (t + 100))) \<noteq> Inr ()"
        using "1.prems"(2) lt True by (simp add: waitForExit_poll_alive)
      from "1.IH" [OF \<open>\<not> timeout \<le> t\<close> pk nxt rej] lt True
      show ?thesis by (simp add: waitForExit_poll_alive)
    qed
  qed
qed




lemma poll_times_polls:
  "poll_times (map (\<lambda>j. (t + 100 * j, ProcessKill pid SIGZERO)) js) = map (\<lambda>j. t + 100 * j) js"
  by (induction js) (simp_all add: poll_times_def)


lemma map_fst_polls:
  "map fst (map (\<lambda>j. (t + 100 * j, ProcessKill pid SIGZERO)) js) = map (\<lambda>j. t + 100 * j) js"
  by simp



lemma kill_alive:
  "alive 0 \<Longrightarrow>
   kill alive pid sig horizon =
     (if \<exists>n. 100 + 100 * n < 5000 \<and> \<not> alive (100 + 100 * n)
      then ((0, ProcessKill pid sig) # fst (waitForExit_poll alive pid 5000 100), Inr ())
      else ((0, ProcessKill pid sig) # fst (waitForExit_poll alive pid 5000 100) @
              [(5000, ProcessKill pid SIGKILL)] @
              interval_polls alive pid
                (100 + 100 * length (fst (waitForExit_poll alive pid 5000 100))) horizon,
            Inr ()))"
proof -
  assume a: "alive 0"
  obtain polls r iv where w: "waitForExit_poll alive pid 5000 100 = (polls, r, iv)"
    by (cases "waitForExit_poll alive pid 5000 100")
  have r: "r = (if \<exists>n. 100 + 100 * n < 5000 \<and> \<not> alive (100 + 100 * n)
                then Inr () else Inl (DidNotExit pid 5000))"
    using waitForExit_poll_outcome [of alive pid 5000 100] w by simp
  have "snd (snd (polls, r, iv)) =
          (if fst (snd (polls, r, iv)) = Inr () then None
           else Some (100 + 100 * length (fst (polls, r, iv))))"
    using waitForExit_poll_interval [of alive pid 5000 100] unfolding w .
  then have iv: "iv = (if r = Inr () then None else Some (100 + 100 * length polls))"
    by (simp only: fst_conv snd_conv)
  have p: "fst (waitForExit_poll alive pid 5000 100) = polls"
    unfolding w by simp
  show ?thesis
  proof (cases "\<exists>n. 100 + 100 * n < 5000 \<and> \<not> alive (100 + 100 * n)")
    case True
    with r have "r = Inr ()" by simp
    with True a iv show ?thesis
      unfolding p by (simp add: kill_def process_kill_def waitForExit_def later_polls_def w)
  next
    case False
    with r have "r = Inl (DidNotExit pid 5000)" by simp
    with False a iv show ?thesis
      unfolding p
      by (simp add: kill_def process_kill_def waitForExit_def force_kill_def later_polls_def w)
  qed
qed

text \<open>
  The timer does not clear the interval: a process that outlives the deadline is polled
  at the deadline and after it, until a poll finds it gone or the host is no longer
  watched.
\<close>

lemma kill_polls_after_deadline:
  "poll_times (fst (kill (\<lambda>t. t < 5150) 4242 SIGTERM 6000)) =
     map (\<lambda>j. 100 + 100 * j) [0..<52]"
proof -
  let ?alive = "\<lambda>t::nat. t < 5150"
  let ?polls = "fst (waitForExit_poll ?alive 4242 5000 100)"
  have none: "\<not> (\<exists>n::nat. 100 + 100 * n < 5000 \<and> \<not> ?alive (100 + 100 * n))" by auto
  have out: "fst (snd (waitForExit_poll ?alive 4242 5000 100)) = Inl (DidNotExit 4242 5000)"
    using waitForExit_poll_outcome [of ?alive 4242 5000 100] none by simp
  have "snd (snd (waitForExit_poll ?alive 4242 5000 100)) = Some (100 + 100 * length ?polls)"
    using waitForExit_poll_interval [of ?alive 4242 5000 100] out by simp
  moreover have "\<exists>t'. snd (snd (waitForExit_poll ?alive 4242 5000 100)) = Some t' \<and>
                     5000 \<le> t' \<and> t' < 5000 + 100"
    using waitForExit_poll_interval_due [of 100 5000 ?alive 4242] out by simp
  ultimately have len: "length ?polls = 49" by auto
  have tr: "?polls = map (\<lambda>j. (100 + 100 * j, ProcessKill 4242 SIGZERO)) [0..<49]"
    using waitForExit_poll_trace [of ?alive 4242 5000 100] len by simp
  have later: "interval_polls ?alive 4242 5000 6000 =
                 [(5000, ProcessKill 4242 SIGZERO), (5100, ProcessKill 4242 SIGZERO),
                  (5200, ProcessKill 4242 SIGZERO)]"
    by (simp add: interval_polls_alive interval_polls_dead)
  have k: "kill ?alive 4242 SIGTERM 6000 =
             ((0, ProcessKill 4242 SIGTERM) # ?polls @ [(5000, ProcessKill 4242 SIGKILL)] @
                interval_polls ?alive 4242 5000 6000, Inr ())"
    using kill_alive [of ?alive 4242 SIGTERM 6000] none len by simp
  have p: "poll_times ((0, ProcessKill 4242 SIGTERM) # ?polls @ [(5000, ProcessKill 4242 SIGKILL)] @
                interval_polls ?alive 4242 5000 6000) =
           poll_times ?polls @ [5000, 5100, 5200]"
    unfolding later by (simp add: poll_times_def)
  have pp: "poll_times ?polls = map (\<lambda>j. 100 + 100 * j) [0..<49]"
    by (subst tr) (rule poll_times_polls)
  have "map (\<lambda>j. 100 + 100 * j) [0..<49] @ [5000, 5100, 5200 :: nat] =
        map (\<lambda>j. 100 + 100 * j) [0..<49 + 3]"
    by (subst upt_add_eq_append) (simp_all add: upt_conv_Cons del: upt_Suc)
  then show ?thesis
    unfolding k fst_conv p pp by simp
qed




section \<open>Properties of stopping the dashboard\<close>

lemma fold_new_Set:
  "distinct acc \<Longrightarrow>
   distinct (fold (\<lambda>x acc. if x \<in> set acc then acc else acc @ [x]) xs acc) \<and>
   set (fold (\<lambda>x acc. if x \<in> set acc then acc else acc @ [x]) xs acc) = set acc \<union> set xs"
  by (induction xs arbitrary: acc) auto

lemma distinct_new_Set: "distinct (new_Set xs)"
  using fold_new_Set [of "[]" xs] by (simp add: new_Set_def)

lemma set_new_Set: "set (new_Set xs) = set xs"
  using fold_new_Set [of "[]" xs] by (simp add: new_Set_def)

lemma collect_pids_concat:
  "collect_pids exec ports allPids = allPids @ concat (map (discovered exec) ports)"
  by (induction ports arbitrary: allPids) (auto simp: discovered_def split: sum.splits)

lemma kill_commands_append:
  "kill_commands (es @ fs) = kill_commands es @ kill_commands fs"
  by (induction es rule: kill_commands.induct) auto

lemma stop_never_raises: "snd (stop exec ports) = Inr ()"
  by (simp add: stop_def Let_def split: sum.splits)

lemma stop_trace:
  "fst (stop exec ports) =
     ConsoleLog ''Stopping dashboard and WebSocket servers...'' #
     map (\<lambda>port. Exec (Lsof port)) [dashboard ports, terminalWs ports, directTerminalWs ports] @
     (let allPids = concat (map (discovered exec) [dashboard ports, terminalWs ports, directTerminalWs ports])
      in if allPids = [] then [ConsoleLog ''Dashboard not running'']
         else [Exec (KillPids (new_Set allPids)),
               ConsoleLog (case exec (KillPids (new_Set allPids)) of
                             Inr out \<Rightarrow> ''Dashboard and WebSocket servers stopped''
                           | Inl err \<Rightarrow> ''Could not stop some processes (may have already exited)'')])"
  by (simp add: stop_def Let_def collect_pids_concat split: sum.splits)

text \<open>
  C6, amended. For every bundle, \<open>stop\<close> asks for the listeners of each of the three
  ports, collects the process ids found and removes duplicates across all ports (the
  unique ids are distinct and are exactly the ids found). When at least one id was found
  it runs one \<^verbatim>\<open>kill\<close> command with exactly the unique ids as arguments, and none
  otherwise. It sends no signal through \<^verbatim>\<open>process.kill\<close>: no poll and no forced kill
  follow. The call never raises.
\<close>

theorem stop_kills_unique_listeners_once:
  "(let allPorts = [dashboard ports, terminalWs ports, directTerminalWs ports];
        allPids = concat (map (discovered exec) allPorts);
        tr = fst (stop exec ports)
    in snd (stop exec ports) = Inr () \<and>
       take 4 tr = ConsoleLog ''Stopping dashboard and WebSocket servers...'' #
                   map (\<lambda>port. Exec (Lsof port)) allPorts \<and>
       kill_commands tr = (if allPids = [] then [] else [new_Set allPids]) \<and>
       distinct (new_Set allPids) \<and> set (new_Set allPids) = set allPids \<and>
       filter is_ProcessKill tr = [])"
  by (simp add: stop_never_raises stop_trace Let_def distinct_new_Set set_new_Set
      is_ProcessKill_def split: sum.splits)

text \<open>
  The claim as stated has every unique id terminated by the two-phase protocol. With
  process 4242 listening on two ports and 4243 on one, \<open>stop\<close> runs the single command
  \<^verbatim>\<open>kill 4242 4243\<close> and performs no \<^verbatim>\<open>process.kill\<close> at all, whereas the two-phase
  protocol on a process 4242 that stays alive starts with its own graceful signal and
  ends with the forced kill.
\<close>

theorem stop_not_two_phase_counterexample:
  "(let exec = (\<lambda>c. case c of
                   Lsof port \<Rightarrow>
                     (if port = 4000 then Inr (''4242'' @ [CHR 0x0A])
                      else if port = 3001 then Inr (''4242'' @ [CHR 0x0A] @ ''4243'' @ [CHR 0x0A])
                      else Inl CommandFailed)
                 | KillPids pids \<Rightarrow> Inr []);
        tr = fst (stop exec \<lparr>dashboard = 4000, terminalWs = 3001, directTerminalWs = 3003\<rparr>)
    in tr = [ConsoleLog ''Stopping dashboard and WebSocket servers...'',
             Exec (Lsof 4000), Exec (Lsof 3001), Exec (Lsof 3003),
             Exec (KillPids [''4242'', ''4243'']),
             ConsoleLog ''Dashboard and WebSocket servers stopped''] \<and>
       filter is_ProcessKill tr = [] \<and>
       hd (fst (kill (\<lambda>t. True) 4242 SIGTERM 5000)) = (0, ProcessKill 4242 SIGTERM) \<and>
       forced (fst (kill (\<lambda>t. True) 4242 SIGTERM 5000)))"
proof -
  have k: "kill (\<lambda>t. True) 4242 SIGTERM 5000 =
             ((0, ProcessKill 4242 SIGTERM) # fst (waitForExit_poll (\<lambda>t. True) 4242 5000 100) @
                [(5000, ProcessKill 4242 SIGKILL)] @
                interval_polls (\<lambda>t. True) 4242
                  (100 + 100 * length (fst (waitForExit_poll (\<lambda>t. True) 4242 5000 100))) 5000,
              Inr ())"
    using kill_alive [of "\<lambda>t. True" 4242 SIGTERM 5000] by simp
  have f: "forced (fst (kill (\<lambda>t. True) 4242 SIGTERM 5000))"
    unfolding k by (simp add: forced_def)
  have h: "hd (fst (kill (\<lambda>t. True) 4242 SIGTERM 5000)) = (0, ProcessKill 4242 SIGTERM)"
    unfolding k by simp
  show ?thesis
    using f h
    by (simp add: stop_def Let_def pids_of_stdout_def trim_def is_space_def new_Set_def
        is_ProcessKill_def)
qed

text \<open>
  C7. When nothing listens on any port of the bundle, \<open>stop\<close> succeeds: it looks at the
  three ports, prints that the dashboard is not running, runs no \<^verbatim>\<open>kill\<close> command and
  returns without raising. A second call on the still stopped bundle, whatever the
  listing command then answers (\<open>exec2\<close>), does exactly the same.
\<close>

theorem stop_idempotent_when_nothing_listens:
  assumes "nothing_listening exec1 ports" and "nothing_listening exec2 ports"
  shows "stop exec1 ports =
           ([ConsoleLog ''Stopping dashboard and WebSocket servers...'',
             Exec (Lsof (dashboard ports)), Exec (Lsof (terminalWs ports)),
             Exec (Lsof (directTerminalWs ports)),
             ConsoleLog ''Dashboard not running''], Inr ()) \<and>
         stop exec2 ports = stop exec1 ports"
proof -
  have "\<And>exec. nothing_listening exec ports \<Longrightarrow> stop exec ports =
           ([ConsoleLog ''Stopping dashboard and WebSocket servers...'',
             Exec (Lsof (dashboard ports)), Exec (Lsof (terminalWs ports)),
             Exec (Lsof (directTerminalWs ports)),
             ConsoleLog ''Dashboard not running''], Inr ())"
    by (simp add: stop_def Let_def collect_pids_concat nothing_listening_def)
  with assms show ?thesis by simp
qed

theorem stop_idempotent_when_nothing_listens_witness:
  "(let ports = \<lparr>dashboard = 4000, terminalWs = 3001, directTerminalWs = 3003\<rparr>;
        exec1 = (\<lambda>c :: command. Inl CommandFailed :: shell_error + string);
        exec2 = (\<lambda>c :: command. Inr [CHR 0x0A] :: shell_error + string)
    in nothing_listening exec1 ports \<and> nothing_listening exec2 ports \<and>
       stop exec1 ports =
         ([ConsoleLog ''Stopping dashboard and WebSocket servers...'',
           Exec (Lsof 4000), Exec (Lsof 3001), Exec (Lsof 3003),
           ConsoleLog ''Dashboard not running''], Inr ()) \<and>
       stop exec2 ports = stop exec1 ports)"
proof -
  let ?ports = "\<lparr>dashboard = 4000, terminalWs = 3001, directTerminalWs = 3003\<rparr>"
  let ?e1 = "\<lambda>c :: command. Inl CommandFailed :: shell_error + string"
  let ?e2 = "\<lambda>c :: command. Inr [CHR 0x0A] :: shell_error + string"
  have n1: "nothing_listening ?e1 ?ports"
    by (simp add: nothing_listening_def discovered_def)
  have n2: "nothing_listening ?e2 ?ports"
    by (simp add: nothing_listening_def discovered_def pids_of_stdout_def trim_def is_space_def)
  from stop_idempotent_when_nothing_listens [OF n1 n2]
  show ?thesis using n1 n2 by (simp add: Let_def)
qed


section \<open>Properties of the metadata service\<close>

text \<open>
  Calls that do not overlap are merged in order: each finds the lock free, merges its
  patch over the persisted record and leaves the lock free.
\<close>

lemma update_alone_step:
  assumes "locks w sid = None"
  shows "locks (update_alone w dir sid p) = locks w"
    and "disk (update_alone w dir sid p) =
           (disk w)((dir, sid) := Some (record_or_empty (disk w (dir, sid)) ++ p))"
    and "call_state (calls (update_alone w dir sid p) ! length (calls w)) = Fulfilled"
  using assms
  by (auto simp: update_alone_def updateMetadata_def acquireLock_def set_state_def resume_def
      runnable_def locked_section_def releaseLock_def record_or_empty_def Let_def fun_eq_iff)

lemma update_alone_fold:
  "locks w sid = None \<Longrightarrow>
   record_or_empty (disk (foldl (\<lambda>w' p. update_alone w' dir sid p) w ps) (dir, sid)) =
     foldl (++) (record_or_empty (disk w (dir, sid))) ps"
proof (induction ps arbitrary: w)
  case Nil
  show ?case by simp
next
  case (Cons p ps)
  have l: "locks (update_alone w dir sid p) sid = None"
    using update_alone_step(1) [OF Cons.prems, of dir p] Cons.prems by simp
  have d: "record_or_empty (disk (update_alone w dir sid p) (dir, sid)) =
             record_or_empty (disk w (dir, sid)) ++ p"
    using update_alone_step(2) [OF Cons.prems, of dir p] by (simp add: record_or_empty_def)
  show ?case
    using Cons.IH [OF l] d by simp
qed

text \<open>Calls that overlap: the second is made while the first is suspended.\<close>

lemma two_calls_issued:
  "updateMetadata (updateMetadata (new_MetadataService d0) dir sid p1 f1) dir sid p2 f2 =
     \<lparr>locks = [sid \<mapsto> 0], resolved = {}, promise_count = Suc 0, disk = d0,
      calls = [\<lparr>call_dataDir = dir, call_sessionId = sid, call_updates = p1,
                call_fault = f1, call_state = AwaitAcquireLock\<rparr>,
               \<lparr>call_dataDir = dir, call_sessionId = sid, call_updates = p2,
                call_fault = f2, call_state = AwaitLockPromise 0\<rparr>]\<rparr>"
  by (simp add: updateMetadata_def new_MetadataService_def acquireLock_def set_state_def Let_def)

lemma resume_first:
  "resume (updateMetadata (updateMetadata (new_MetadataService d0) dir sid p1 f1) dir sid p2 f2) 0 =
     first_call_done d0 dir sid p1 f1 p2 f2"
  unfolding two_calls_issued
  by (cases f1)
     (simp_all add: resume_def runnable_def locked_section_def releaseLock_def set_state_def
        record_or_empty_def Let_def)

lemma resume_other:
  "i \<noteq> 0 \<Longrightarrow>
   resume (updateMetadata (updateMetadata (new_MetadataService d0) dir sid p1 f1) dir sid p2 f2) i =
     updateMetadata (updateMetadata (new_MetadataService d0) dir sid p1 f1) dir sid p2 f2"
  unfolding two_calls_issued
  by (cases i; cases "i - 1") (simp_all add: resume_def runnable_def)

lemma resume_first_call_done:
  "resume (first_call_done d0 dir sid p1 f1 p2 f2) i = first_call_done d0 dir sid p1 f1 p2 f2"
  by (cases i; cases "i - 1"; cases f1) (simp_all add: resume_def runnable_def)

lemma run_first_call_done:
  "run (first_call_done d0 dir sid p1 f1 p2 f2) schedule = first_call_done d0 dir sid p1 f1 p2 f2"
  by (induction schedule) (simp_all add: run_def resume_first_call_done)

lemma run_two_calls:
  "run (updateMetadata (updateMetadata (new_MetadataService d0) dir sid p1 f1) dir sid p2 f2) schedule =
     (if 0 \<in> set schedule then first_call_done d0 dir sid p1 f1 p2 f2
      else updateMetadata (updateMetadata (new_MetadataService d0) dir sid p1 f1) dir sid p2 f2)"
proof (induction schedule)
  case Nil
  show ?case by (simp add: run_def)
next
  case (Cons i schedule)
  show ?case
  proof (cases "i = 0")
    case True
    then show ?thesis
      using run_first_call_done [of d0 dir sid p1 f1 p2 f2 schedule]
      by (simp add: run_def resume_first)
  next
    case False
    then show ?thesis
      using Cons.IH by (simp add: run_def resume_other)
  qed
qed

text \<open>
  C1, evaluated on the code. Two calls of \<^verbatim>\<open>updateMetadata\<close> for one session are made
  one after the other before the host resumes either. Under every schedule the second
  call stays suspended on the lock promise of the first, which nothing resolves: it can
  never be resumed and never completes, and its patch is never merged. Once the first
  call has run, the persisted record is the initial record with the first patch merged
  over it, not the fold of both patches.
\<close>

theorem updateMetadata_second_call_never_granted:
  "(let w = run (updateMetadata (updateMetadata (new_MetadataService d0) dir sid p1 NoFault)
                   dir sid p2 NoFault) schedule
    in call_state (calls w ! 1) = AwaitLockPromise 0 \<and> \<not> runnable w 1 \<and>
       call_state (calls w ! 0) = (if 0 \<in> set schedule then Fulfilled else AwaitAcquireLock) \<and>
       disk w (dir, sid) =
         (if 0 \<in> set schedule then Some (record_or_empty (d0 (dir, sid)) ++ p1)
          else d0 (dir, sid)))"
  unfolding run_two_calls
  by (simp add: Let_def two_calls_issued runnable_def)

theorem updateMetadata_second_call_never_granted_witness:
  "(let w = run (updateMetadata
                   (updateMetadata (new_MetadataService (\<lambda>file. None)) ''data'' ''s1''
                      [''status'' \<mapsto> ''working''] NoFault)
                   ''data'' ''s1'' [''branch'' \<mapsto> ''main''] NoFault) [1, 0, 1, 0, 1]
    in call_state (calls w ! 0) = Fulfilled \<and>
       call_state (calls w ! 1) = AwaitLockPromise 0 \<and> \<not> runnable w 1 \<and>
       map_option (\<lambda>r. (r ''status'', r ''branch'')) (disk w (''data'', ''s1'')) =
         Some (Some ''working'', None) \<and>
       foldl (++) Map.empty [[''status'' \<mapsto> ''working''], [''branch'' \<mapsto> ''main'']] ''branch'' =
         Some ''main'')"
  using updateMetadata_second_call_never_granted
    [of "\<lambda>file. None" "''data''" "''s1''" "[''status'' \<mapsto> ''working'']"
        "[''branch'' \<mapsto> ''main'']" "[1, 0, 1, 0, 1]"]
  by (simp add: Let_def record_or_empty_def)

text \<open>
  C2, evaluated on the code. Of two overlapping calls for one session the first fails in
  its write, or in its read. The failure reaches the first call only, the persisted
  records are untouched and the entry of the session is removed from the lock map; but
  the second call, queued on the lock promise, is still suspended and cannot be resumed
  under any schedule: it is never granted the lock.
\<close>

theorem updateMetadata_failure_releases_map_entry_only:
  "(let w = run (updateMetadata (updateMetadata (new_MetadataService d0) dir sid p1 WriteThrows)
                   dir sid p2 NoFault) (0 # schedule)
    in call_state (calls w ! 0) = Rejected WriteError \<and> locks w sid = None \<and> disk w = d0 \<and>
       call_state (calls w ! 1) = AwaitLockPromise 0 \<and> \<not> runnable w 1) \<and>
   (let w = run (updateMetadata (updateMetadata (new_MetadataService d0) dir sid p1 ReadThrows)
                   dir sid p2 NoFault) (0 # schedule)
    in call_state (calls w ! 0) = Rejected ReadError \<and> locks w sid = None \<and> disk w = d0 \<and>
       call_state (calls w ! 1) = AwaitLockPromise 0 \<and> \<not> runnable w 1)"
  unfolding run_two_calls
  by (simp add: Let_def runnable_def)

theorem updateMetadata_failure_releases_map_entry_only_witness:
  "(let w = run (updateMetadata
                   (updateMetadata (new_MetadataService (\<lambda>file. None)) ''data'' ''s1''
                      [''status'' \<mapsto> ''working''] WriteThrows)
                   ''data'' ''s1'' [''branch'' \<mapsto> ''main''] NoFault) [0, 1, 1]
    in call_state (calls w ! 0) = Rejected WriteError \<and> locks w ''s1'' = None \<and>
       disk w (''data'', ''s1'') = None \<and>
       call_state (calls w ! 1) = AwaitLockPromise 0 \<and> \<not> runnable w 1)"
  using updateMetadata_failure_releases_map_entry_only
    [of "\<lambda>file. None" "''data''" "''s1''" "[''status'' \<mapsto> ''working'']"
        "[''branch'' \<mapsto> ''main'']" "[1, 1]"]
  by (simp add: Let_def)

section \<open>Properties of the enrichment fan-out\<close>

lemma set_merge_settled:
  "set (merge_settled rs) = {(name, v). (name, FulfilledWith v) \<in> set rs}"
  by (induction rs rule: merge_settled.induct) auto

lemma length_merge_settled:
  "length (merge_settled rs) + failed_count rs = length rs"
  by (induction rs rule: merge_settled.induct) (auto simp: failed_count_def)

lemma failed_count_le: "failed_count rs \<le> length rs"
  by (simp add: failed_count_def)

lemma rateLimited_iff:
  "rateLimited (enrichSessionPR rs) \<longleftrightarrow> rs \<noteq> [] \<and> length rs \<le> 2 * failed_count rs"
proof (cases "rs = []")
  case True
  then show ?thesis by (simp add: enrichSessionPR_def failed_count_def)
next
  case False
  then have pos: "(0::rat) < of_nat (length rs)" by simp
  have "((5 / 10 :: rat) \<le> of_nat (failed_count rs) / of_nat (length rs)) =
        ((5 / 10) * of_nat (length rs) \<le> (of_nat (failed_count rs) :: rat))"
    using pos by (simp add: pos_le_divide_eq)
  also have "\<dots> = ((of_nat (length rs) :: rat) \<le> of_nat (2 * failed_count rs))"
    by (simp add: mult.commute)
  also have "\<dots> = (length rs \<le> 2 * failed_count rs)"
    by (simp only: of_nat_le_iff)
  finally show ?thesis using False by (simp add: enrichSessionPR_def Let_def)
qed

text \<open>
  C9. The enrichment looks at every settled sub-fetch, whatever failed before it: the
  merged fields are exactly the fulfilled results, the rejected ones are left out (merged
  and failed together count every sub-fetch), and the result is marked rate limited, with
  the blocker message, exactly when the fraction of failed sub-fetches is at least 0.5.
  With six sub-fetches, three failures give a rate-limited result with three fields and
  one failure gives a result that is not rate limited, with five fields.
\<close>

theorem enrichment_keeps_successes_and_flags_half_failed:
  "(let r = enrichSessionPR rs in
      set (merged_fields r) = {(name, v). (name, FulfilledWith v) \<in> set rs} \<and>
      length (merged_fields r) + failed_count rs = length rs \<and>
      (rateLimited r \<longleftrightarrow> (of_nat (failed_count rs) :: rat) / of_nat (length rs) \<ge> 0.5) \<and>
      blockers r = (if rateLimited r then [''API rate limited or unavailable''] else []) \<and>
      (length rs = 6 \<and> failed_count rs = 3 \<longrightarrow> rateLimited r \<and> length (merged_fields r) = 3) \<and>
      (length rs = 6 \<and> failed_count rs = 1 \<longrightarrow> \<not> rateLimited r \<and> length (merged_fields r) = 5))"
proof -
  have m: "merged_fields (enrichSessionPR rs) = merge_settled rs"
    by (simp add: enrichSessionPR_def Let_def)
  have six3: "length rs = 6 \<and> failed_count rs = 3 \<longrightarrow>
                rateLimited (enrichSessionPR rs) \<and> length (merge_settled rs) = 3"
    using rateLimited_iff [of rs] length_merge_settled [of rs] by auto
  have six1: "length rs = 6 \<and> failed_count rs = 1 \<longrightarrow>
                \<not> rateLimited (enrichSessionPR rs) \<and> length (merge_settled rs) = 5"
    using rateLimited_iff [of rs] length_merge_settled [of rs] by auto
  have rl: "rateLimited (enrichSessionPR rs) \<longleftrightarrow>
              (of_nat (failed_count rs) :: rat) / of_nat (length rs) \<ge> 0.5"
    by (simp add: enrichSessionPR_def Let_def)
  have bl: "blockers (enrichSessionPR rs) =
              (if rateLimited (enrichSessionPR rs) then [''API rate limited or unavailable''] else [])"
    by (simp add: enrichSessionPR_def Let_def)
  show ?thesis
    unfolding Let_def m
    using set_merge_settled [of rs] length_merge_settled [of rs] six3 six1 rl bl
    by blast
qed

theorem enrichment_keeps_successes_and_flags_half_failed_witness:
  "(let half = enrichSessionPR
        [(''summary'', FulfilledWith (1::nat)), (''ciChecks'', RejectedFetch),
         (''ciStatus'', FulfilledWith 2), (''reviewDecision'', RejectedFetch),
         (''mergeability'', RejectedFetch), (''comments'', FulfilledWith 3)];
        one = enrichSessionPR
        [(''summary'', FulfilledWith (1::nat)), (''ciChecks'', RejectedFetch),
         (''ciStatus'', FulfilledWith 2), (''reviewDecision'', FulfilledWith 4),
         (''mergeability'', FulfilledWith 5), (''comments'', FulfilledWith 3)]
    in rateLimited half \<and> length (merged_fields half) = 3 \<and>
       merged_fields half = [(''summary'', 1), (''ciStatus'', 2), (''comments'', 3)] \<and>
       blockers half = [''API rate limited or unavailable''] \<and>
       \<not> rateLimited one \<and> length (merged_fields one) = 5 \<and> blockers one = [])"
proof -
  let ?h = "[(''summary'', FulfilledWith (1::nat)), (''ciChecks'', RejectedFetch),
         (''ciStatus'', FulfilledWith 2), (''reviewDecision'', RejectedFetch),
         (''mergeability'', RejectedFetch), (''comments'', FulfilledWith 3)]"
  let ?o = "[(''summary'', FulfilledWith (1::nat)), (''ciChecks'', RejectedFetch),
         (''ciStatus'', FulfilledWith 2), (''reviewDecision'', FulfilledWith 4),
         (''mergeability'', FulfilledWith 5), (''comments'', FulfilledWith 3)]"
  have h: "length ?h = 6 \<and> failed_count ?h = 3" by (simp add: failed_count_def)
  have o: "length ?o = 6 \<and> failed_count ?o = 1" by (simp add: failed_count_def)
  have mh: "merged_fields (enrichSessionPR ?h) = [(''summary'', 1), (''ciStatus'', 2), (''comments'', 3)]"
    by (simp add: enrichSessionPR_def Let_def)
  have th: "rateLimited (enrichSessionPR ?h) \<and> length (merged_fields (enrichSessionPR ?h)) = 3 \<and>
            blockers (enrichSessionPR ?h) = [''API rate limited or unavailable'']"
    using enrichment_keeps_successes_and_flags_half_failed [of ?h] h
    unfolding Let_def by (elim conjE) simp
  have t1: "\<not> rateLimited (enrichSessionPR ?o) \<and> length (merged_fields (enrichSessionPR ?o)) = 5 \<and>
            blockers (enrichSessionPR ?o) = []"
    using enrichment_keeps_successes_and_flags_half_failed [of ?o] o
    unfolding Let_def by (elim conjE) simp
  show ?thesis unfolding Let_def using th t1 mh by blast
qed

end
